theory Spec2Isabelle
  imports Main "HOL-Library.AList"
begin

section \<open>Go values used by gosync\<close>

text \<open>
  A Go \<^verbatim>\<open>map[string]bool\<close> is an association list. Reading a key that is absent gives
  the zero value \<open>False\<close>, the assignment \<^verbatim>\<open>m[k] = v\<close> replaces the entry of \<open>k\<close> or adds
  one, \<^verbatim>\<open>len(m)\<close> counts the keys and \<^verbatim>\<open>range m\<close> visits every key once. Go leaves the
  order of \<^verbatim>\<open>range\<close> open; here it is the order of the list, and every theorem below
  holds for every list, hence for every order.
\<close>

type_synonym gomap = "(string \<times> bool) list"

definition map_index :: "gomap \<Rightarrow> string \<Rightarrow> bool" where
  "map_index m k = (case map_of m k of None \<Rightarrow> False | Some b \<Rightarrow> b)"

definition map_exists :: "gomap \<Rightarrow> string \<Rightarrow> bool" where
  "map_exists m k = (case map_of m k of None \<Rightarrow> False | Some b \<Rightarrow> True)"

definition map_assign :: "gomap \<Rightarrow> string \<Rightarrow> bool \<Rightarrow> gomap" where
  "map_assign m k v = AList.update k v m"

definition map_range :: "gomap \<Rightarrow> string list" where
  "map_range m = remdups (map fst m)"

definition map_len :: "gomap \<Rightarrow> nat" where
  "map_len m = length (map_range m)"

text \<open>The set of keys of a map: the paths of an inventory, the peers of the quarantine set.\<close>

definition keys_of :: "gomap \<Rightarrow> string set" where
  "keys_of m = fst ` set m"

text \<open>Every value stored in the map is \<open>True\<close>.\<close>

definition only_true :: "gomap \<Rightarrow> bool" where
  "only_true m = list_all snd m"

text \<open>
  \<^verbatim>\<open>time.Duration\<close> counts nanoseconds in an \<^verbatim>\<open>int64\<close>; the three timeouts of the
  program are far below \<open>2 ^ 63\<close>, so they are plain integers here.
\<close>

definition time_Second :: int where
  "time_Second = 1000000000"

record http_Client =
  Timeout :: int

text \<open>The client built in \<^verbatim>\<open>checkAllNodesInSync\<close> (line 167).\<close>

definition checkAllNodesInSync_client :: http_Client where
  "checkAllNodesInSync_client = \<lparr>Timeout = 5 * time_Second\<rparr>"

text \<open>The client built in \<^verbatim>\<open>syncWithPeer\<close> (line 343), used for \<^verbatim>\<open>/files\<close> and \<^verbatim>\<open>/sync\<close>.\<close>

definition syncWithPeer_client :: http_Client where
  "syncWithPeer_client = \<lparr>Timeout = 30 * time_Second\<rparr>"

text \<open>The client built in \<^verbatim>\<open>downloadFile\<close> (line 422), used for \<^verbatim>\<open>/file\<close>.\<close>

definition downloadFile_client :: http_Client where
  "downloadFile_client = \<lparr>Timeout = 60 * time_Second\<rparr>"

section \<open>The global variables and the network\<close>

record globals =
  targetDir :: string
  peerIPs :: "string list"
  port :: int
  fileList :: gomap
  syncCompleted :: bool
  syncAttempts :: int
  ignoredNodes :: gomap
  syncDelay :: int

definition maxAttempts :: int where
  "maxAttempts = 5"

text \<open>
  What \<^verbatim>\<open>client.Get(peerURL + "/files")\<close> followed by the scanner loop can give:
  \<open>GetError\<close> when \<^verbatim>\<open>Get\<close> returns an error, \<open>ScanError ls\<close> when the scanner has
  read the lines \<open>ls\<close> and \<^verbatim>\<open>scanner.Err()\<close> is not nil, \<open>Lines ls\<close> when the body was
  read to its end. The program does not look at the kind of the error.
\<close>

datatype files_reply = GetError | ScanError "string list" | Lines "string list"

text \<open>The scanner loop: \<^verbatim>\<open>peerFiles[scanner.Text()] = true\<close> for every line.\<close>

fun scan_into :: "gomap \<Rightarrow> string list \<Rightarrow> gomap" where
  "scan_into peerFiles [] = peerFiles"
| "scan_into peerFiles (l # ls) = scan_into (map_assign peerFiles l True) ls"

definition scan_peerFiles :: "string list \<Rightarrow> gomap" where
  "scan_peerFiles ls = scan_into [] ls"

section \<open>The quarantine set\<close>

definition shouldIgnoreNode :: "globals \<Rightarrow> string \<Rightarrow> bool" where
  "shouldIgnoreNode g ip = map_index (ignoredNodes g) ip"

definition ignoreNode :: "globals \<Rightarrow> string \<Rightarrow> globals" where
  "ignoreNode g ip = g\<lparr>ignoredNodes := map_assign (ignoredNodes g) ip True\<rparr>"

section \<open>The convergence check\<close>

text \<open>
  Lines 195 to 205: the loop over \<^verbatim>\<open>fileList\<close> stops at the first file that the peer
  does not report.
\<close>

fun all_in_peerFiles :: "string list \<Rightarrow> gomap \<Rightarrow> bool" where
  "all_in_peerFiles [] peerFiles = True"
| "all_in_peerFiles (file # files) peerFiles =
     (if \<not> map_index peerFiles file then False else all_in_peerFiles files peerFiles)"

definition filesMatch :: "gomap \<Rightarrow> gomap \<Rightarrow> bool" where
  "filesMatch peerFiles fl =
     (if map_len peerFiles \<noteq> map_len fl then False
      else all_in_peerFiles (map_range fl) peerFiles)"

text \<open>
  The body of the loop over \<^verbatim>\<open>peerIPs\<close> (lines 159 to 210) for one peer: \<open>reply\<close> is
  what the network gives if the call is made, \<open>n\<close> is \<^verbatim>\<open>accessibleNodeCount\<close>.
\<close>

definition check_peer :: "files_reply \<Rightarrow> string \<Rightarrow> globals \<times> int \<Rightarrow> globals \<times> int" where
  "check_peer reply ip gn =
     (case gn of (g, n) \<Rightarrow>
        if shouldIgnoreNode g ip then (g, n)
        else (case reply of
            GetError \<Rightarrow> (ignoreNode g ip, n)
          | ScanError ls \<Rightarrow> (g, n)
          | Lines ls \<Rightarrow>
              if filesMatch (scan_peerFiles ls) (fileList g) then (g, n + 1) else (g, n)))"

text \<open>
  The loop itself. The peer at position \<open>i\<close> of \<^verbatim>\<open>peerIPs\<close> answers \<open>net i\<close>; a peer
  listed twice may answer differently each time.
\<close>

fun check_loop :: "(nat \<Rightarrow> files_reply) \<Rightarrow> nat \<Rightarrow> string list \<Rightarrow> globals \<times> int \<Rightarrow> globals \<times> int" where
  "check_loop net i [] gn = gn"
| "check_loop net i (ip # ips) gn = check_loop net (Suc i) ips (check_peer (net i) ip gn)"

definition checkAllNodesInSync :: "(nat \<Rightarrow> files_reply) \<Rightarrow> globals \<Rightarrow> globals \<times> bool" where
  "checkAllNodesInSync net g =
     (let totalNodeCount = int (length (peerIPs g));
          (g', accessibleNodeCount) = check_loop net 0 (peerIPs g) (g, 0);
          ignoredCount = int (map_len (ignoredNodes g'))
      in (g', accessibleNodeCount + ignoredCount \<ge> totalNodeCount))"

section \<open>The reconciler\<close>

text \<open>
  Lines 370 to 377 and 380 to 389 of \<^verbatim>\<open>syncWithPeer\<close>. The second loop takes the read
  lock anew for every file; the model reads the same \<^verbatim>\<open>fileList\<close> throughout, which is
  what happens when no other goroutine stores a file in between.
\<close>

definition filesToPush :: "gomap \<Rightarrow> gomap \<Rightarrow> string list" where
  "filesToPush fl peerFiles = filter (\<lambda>file. \<not> map_index peerFiles file) (map_range fl)"

definition filesToPull :: "gomap \<Rightarrow> gomap \<Rightarrow> string list" where
  "filesToPull fl peerFiles = filter (\<lambda>file. \<not> map_index fl file) (map_range peerFiles)"

text \<open>
  Lines 395 to 407. \<^verbatim>\<open>downloadFile\<close> works on the disk and the network; \<open>dl file\<close>
  says whether it returns nil for \<open>file\<close>.
\<close>

fun pull_files :: "(string \<Rightarrow> bool) \<Rightarrow> string list \<Rightarrow> gomap \<Rightarrow> gomap" where
  "pull_files dl [] fl = fl"
| "pull_files dl (file # files) fl =
     (if \<not> dl file then pull_files dl files fl
      else pull_files dl files (map_assign fl file True))"

text \<open>
  \<^verbatim>\<open>syncWithPeer\<close> returns nothing; the model returns the new globals and, when the
  listing was read, the two lists it logs (\<^verbatim>\<open>filesToPush\<close>, \<^verbatim>\<open>filesToPull\<close>). The
  \<^verbatim>\<open>/sync\<close> notifications of lines 410 to 414 go to the peer, one for each file of
  \<^verbatim>\<open>filesToPush\<close>, and change nothing here.
\<close>

definition syncWithPeer ::
  "files_reply \<Rightarrow> (string \<Rightarrow> bool) \<Rightarrow> string \<Rightarrow> globals
     \<Rightarrow> globals \<times> (string list \<times> string list) option" where
  "syncWithPeer reply dl ip g =
     (case reply of
        GetError \<Rightarrow> (g, None)
      | ScanError ls \<Rightarrow> (g, None)
      | Lines ls \<Rightarrow>
          (let peerFiles = scan_peerFiles ls;
               push = filesToPush (fileList g) peerFiles;
               pull = filesToPull (fileList g) peerFiles
           in (g\<lparr>fileList := pull_files dl pull (fileList g)\<rparr>, Some (push, pull))))"

section \<open>The HTTP handlers\<close>

record request =
  query :: "(string \<times> string list) list"
  RemoteAddr :: string

record response =
  status :: nat
  body :: string

text \<open>\<^verbatim>\<open>url.Values.Get\<close>: the first value of the key, the empty string when there is none.\<close>

definition Query_Get :: "(string \<times> string list) list \<Rightarrow> string \<Rightarrow> string" where
  "Query_Get q key =
     (case map_of q key of None \<Rightarrow> [] | Some vs \<Rightarrow> (case vs of [] \<Rightarrow> [] | v # _ \<Rightarrow> v))"

text \<open>\<^verbatim>\<open>http.Error\<close> sets the status and writes the message and a newline.\<close>

definition http_Error :: "string \<Rightarrow> nat \<Rightarrow> response" where
  "http_Error msg code = \<lparr>status = code, body = msg @ [CHR 0x0A]\<rparr>"

text \<open>\<^verbatim>\<open>w.Write\<close> with no status set before answers 200.\<close>

definition w_Write :: "string \<Rightarrow> response" where
  "w_Write b = \<lparr>status = 200, body = b\<rparr>"

text \<open>The three messages of \<^verbatim>\<open>handleSyncRequest\<close>, as their UTF-8 bytes.\<close>

definition msg_name_empty :: string where
  "msg_name_empty = [CHR 0xE6, CHR 0x96, CHR 0x87, CHR 0xE4, CHR 0xBB, CHR 0xB6, CHR 0xE5,
     CHR 0x90, CHR 0x8D, CHR 0xE4, CHR 0xB8, CHR 0x8D, CHR 0xE8, CHR 0x83, CHR 0xBD, CHR 0xE4,
     CHR 0xB8, CHR 0xBA, CHR 0xE7, CHR 0xA9, CHR 0xBA]"

definition msg_file_exists :: string where
  "msg_file_exists = [CHR 0xE6, CHR 0x96, CHR 0x87, CHR 0xE4, CHR 0xBB, CHR 0xB6, CHR 0xE5,
     CHR 0xB7, CHR 0xB2, CHR 0xE5, CHR 0xAD, CHR 0x98, CHR 0xE5, CHR 0x9C, CHR 0xA8]"

definition msg_download_started :: string where
  "msg_download_started = [CHR 0xE5, CHR 0xBC, CHR 0x80, CHR 0xE5, CHR 0xA7, CHR 0x8B, CHR 0xE4,
     CHR 0xB8, CHR 0x8B, CHR 0xE8, CHR 0xBD, CHR 0xBD, CHR 0xE6, CHR 0x96, CHR 0x87, CHR 0xE4,
     CHR 0xBB, CHR 0xB6]"

text \<open>Lines 309 to 311: cut the address at its last colon, if it has one.\<close>

definition cut_port :: "string \<Rightarrow> string" where
  "cut_port remoteIP =
     (if CHR '':'' \<in> set remoteIP
      then rev (tl (dropWhile (\<lambda>c. c \<noteq> CHR '':'') (rev remoteIP)))
      else remoteIP)"

definition strings_Trim :: "string \<Rightarrow> string \<Rightarrow> string" where
  "strings_Trim s cutset =
     rev (dropWhile (\<lambda>c. c \<in> set cutset) (rev (dropWhile (\<lambda>c. c \<in> set cutset) s)))"

text \<open>
  \<^verbatim>\<open>handleSyncRequest\<close> gives the globals (it writes none), the response, and the
  goroutine it starts, if any: the host to download from and the file name.
\<close>

definition handleSyncRequest ::
  "globals \<Rightarrow> request \<Rightarrow> globals \<times> response \<times> (string \<times> string) option" where
  "handleSyncRequest g r =
     (let filename = Query_Get (query r) ''file'' in
      if filename = [] then (g, http_Error msg_name_empty 400, None)
      else if map_exists (fileList g) filename then (g, w_Write msg_file_exists, None)
      else (let remoteIP = strings_Trim (cut_port (RemoteAddr r)) ''[]''
            in (g, w_Write msg_download_started, Some (remoteIP, filename))))"

text \<open>
  The goroutine of lines 318 to 330; \<open>ok\<close> says whether \<^verbatim>\<open>downloadFile\<close> returned nil.
\<close>

definition sync_goroutine :: "bool \<Rightarrow> string \<Rightarrow> globals \<Rightarrow> globals" where
  "sync_goroutine ok filename g =
     (if \<not> ok then g else g\<lparr>fileList := map_assign (fileList g) filename True\<rparr>)"

definition handleCheckSync :: "globals \<Rightarrow> response" where
  "handleCheckSync g =
     (let completed = syncCompleted g in
      if completed then w_Write ''COMPLETED'' else w_Write ''PENDING'')"

definition handleFileList :: "globals \<Rightarrow> response" where
  "handleFileList g = w_Write (concat (map (\<lambda>file. file @ [CHR 0x0A]) (map_range (fileList g))))"

section \<open>Startup and the round loop\<close>

text \<open>\<^verbatim>\<open>strings.Split\<close> with a separator of one character.\<close>

fun strings_Split :: "string \<Rightarrow> char \<Rightarrow> string list" where
  "strings_Split [] sep = [[]]"
| "strings_Split (c # cs) sep =
     (if c = sep then [] # strings_Split cs sep
      else (case strings_Split cs sep of [] \<Rightarrow> [[c]] | w # ws \<Rightarrow> (c # w) # ws))"

text \<open>
  The globals when the round loop is reached (lines 36 to 74): the flags, and the
  relative paths \<open>walk\<close> of the files that \<^verbatim>\<open>filepath.Walk\<close> finds, each stored by
  \<^verbatim>\<open>fileList[relPath] = true\<close>.
\<close>

definition startup :: "string \<Rightarrow> string \<Rightarrow> int \<Rightarrow> int \<Rightarrow> string list \<Rightarrow> globals" where
  "startup dir peers prt delay walk =
     \<lparr>targetDir = dir,
      peerIPs = (if peers \<noteq> [] then strings_Split peers (CHR '','') else []),
      port = prt,
      fileList = scan_into [] walk,
      syncCompleted = False,
      syncAttempts = 0,
      ignoredNodes = [],
      syncDelay = delay\<rparr>"

text \<open>
  One round talks to the network three times over: the listing and the downloads of
  every \<^verbatim>\<open>syncWithPeer\<close>, indexed by the position of the peer, and the listings of the
  convergence check.
\<close>

record round_net =
  sync_net :: "nat \<Rightarrow> files_reply"
  sync_dl :: "nat \<Rightarrow> string \<Rightarrow> bool"
  check_net :: "nat \<Rightarrow> files_reply"

text \<open>
  Lines 112 to 118: one goroutine for each peer, and the wait for all of them. The
  goroutines share \<^verbatim>\<open>fileList\<close> only; the model runs them one after the other.
\<close>

fun sync_all ::
  "(nat \<Rightarrow> files_reply) \<Rightarrow> (nat \<Rightarrow> string \<Rightarrow> bool) \<Rightarrow> nat \<Rightarrow> string list \<Rightarrow> globals \<Rightarrow> globals" where
  "sync_all net dl i [] g = g"
| "sync_all net dl i (ip # ips) g =
     sync_all net dl (Suc i) ips (fst (syncWithPeer (net i) (dl i) ip g))"

text \<open>The lines that \<^verbatim>\<open>main\<close> logs from line 100 on.\<close>

datatype log_line =
    Log_no_peers
  | Log_attempt int
  | Log_all_synced int
  | Log_exit
  | Log_retry
  | Log_max_attempts int

text \<open>
  The calls of a round leave \<^verbatim>\<open>syncAttempts\<close> alone (and more), which is why the loop
  below ends.
\<close>

lemma syncWithPeer_fields:
  "ignoredNodes (fst (syncWithPeer reply dl ip g)) = ignoredNodes g"
  "peerIPs (fst (syncWithPeer reply dl ip g)) = peerIPs g"
  "syncCompleted (fst (syncWithPeer reply dl ip g)) = syncCompleted g"
  "syncAttempts (fst (syncWithPeer reply dl ip g)) = syncAttempts g"
  by (simp_all add: syncWithPeer_def Let_def split: files_reply.split)

lemma check_peer_fields:
  "peerIPs (fst (check_peer reply ip gn)) = peerIPs (fst gn)"
  "syncCompleted (fst (check_peer reply ip gn)) = syncCompleted (fst gn)"
  "syncAttempts (fst (check_peer reply ip gn)) = syncAttempts (fst gn)"
  "fileList (fst (check_peer reply ip gn)) = fileList (fst gn)"
  by (simp_all add: check_peer_def ignoreNode_def split: prod.split files_reply.split)

lemma check_loop_fields:
  "peerIPs (fst (check_loop net i ips gn)) = peerIPs (fst gn)"
  "syncCompleted (fst (check_loop net i ips gn)) = syncCompleted (fst gn)"
  "syncAttempts (fst (check_loop net i ips gn)) = syncAttempts (fst gn)"
  "fileList (fst (check_loop net i ips gn)) = fileList (fst gn)"
  by (induction ips arbitrary: i gn; simp add: check_peer_fields)+

lemma fst_checkAllNodesInSync:
  "fst (checkAllNodesInSync net g) = fst (check_loop net 0 (peerIPs g) (g, 0))"
  by (simp add: checkAllNodesInSync_def Let_def split: prod.split)

lemma checkAllNodesInSync_fields:
  "peerIPs (fst (checkAllNodesInSync net g)) = peerIPs g"
  "syncCompleted (fst (checkAllNodesInSync net g)) = syncCompleted g"
  "syncAttempts (fst (checkAllNodesInSync net g)) = syncAttempts g"
  "fileList (fst (checkAllNodesInSync net g)) = fileList g"
  by (simp_all add: fst_checkAllNodesInSync check_loop_fields)

lemma sync_all_fields:
  "ignoredNodes (sync_all net dl i ips g) = ignoredNodes g"
  "peerIPs (sync_all net dl i ips g) = peerIPs g"
  "syncCompleted (sync_all net dl i ips g) = syncCompleted g"
  "syncAttempts (sync_all net dl i ips g) = syncAttempts g"
  by (induction ips arbitrary: i g; simp add: syncWithPeer_fields)+

text \<open>
  Lines 107 to 134. Round \<open>n\<close> (the value of \<^verbatim>\<open>syncAttempts\<close> after the increment)
  meets the network \<open>env n\<close>. The result is the globals at the end and the lines logged.
\<close>

function main_loop :: "(nat \<Rightarrow> round_net) \<Rightarrow> globals \<Rightarrow> globals \<times> log_line list" where
  "main_loop env g =
     (if syncAttempts g < maxAttempts then
        (let g1 = g\<lparr>syncAttempts := syncAttempts g + 1\<rparr>;
             e = env (nat (syncAttempts g1));
             g2 = sync_all (sync_net e) (sync_dl e) 0 (peerIPs g1) g1;
             r = checkAllNodesInSync (check_net e) g2
         in if snd r
            then (fst r, [Log_attempt (syncAttempts g1), Log_all_synced (syncDelay (fst r)), Log_exit])
            else (let rest = main_loop env (fst r)
                  in (fst rest, Log_attempt (syncAttempts g1) # Log_retry # snd rest)))
      else (g, [Log_max_attempts maxAttempts]))"
  by pat_completeness auto
termination
  by (relation "measure (\<lambda>(env, g). nat (maxAttempts - syncAttempts g))")
    (simp_all add: checkAllNodesInSync_fields sync_all_fields)

declare main_loop.simps [simp del]

text \<open>
  \<^verbatim>\<open>main\<close> from its first line: \<open>None\<close> is an exit through \<^verbatim>\<open>log.Fatal\<close>. That happens
  when no directory is given (line 43), when \<^verbatim>\<open>MkdirAll\<close> fails (\<open>mkdir_ok\<close> is false,
  line 52), when \<^verbatim>\<open>Walk\<close> fails (\<open>walk\<close> is \<open>None\<close>, line 72), and when the goroutine of
  lines 90 to 95 finds that \<^verbatim>\<open>ListenAndServe\<close> has failed (\<open>listen_ok\<close> is false, for
  example a port that cannot be bound): its \<^verbatim>\<open>log.Fatalf\<close> ends the process during the
  second that \<^verbatim>\<open>main\<close> sleeps at line 98, before the peer list is looked at. The
  requests that the server answers are the business of \<open>run\<close>.
\<close>

definition main ::
  "string \<Rightarrow> string \<Rightarrow> int \<Rightarrow> int \<Rightarrow> bool \<Rightarrow> string list option \<Rightarrow> bool
     \<Rightarrow> (nat \<Rightarrow> round_net) \<Rightarrow> (globals \<times> log_line list) option" where
  "main dir peers prt delay mkdir_ok walk listen_ok env =
     (if dir = [] then None
      else if \<not> mkdir_ok then None
      else (case walk of
          None \<Rightarrow> None
        | Some paths \<Rightarrow>
            (let g = startup dir peers prt delay paths in
             if \<not> listen_ok then None
             else if length (peerIPs g) = 0 then Some (g, [Log_no_peers])
             else Some (main_loop env g))))"

fun is_attempt :: "log_line \<Rightarrow> bool" where
  "is_attempt (Log_attempt n) = True"
| "is_attempt l = False"

fun is_all_synced :: "log_line \<Rightarrow> bool" where
  "is_all_synced (Log_all_synced d) = True"
| "is_all_synced l = False"

definition attempts :: "log_line list \<Rightarrow> nat" where
  "attempts log = length (filter is_attempt log)"

text \<open>
  What the specification calls \<open>Attempting\<close>: increment the attempt counter, run one
  reconciler for each peer, wait for all of them, invoke the convergence check. The
  result is the globals after the round and what the check returned.
\<close>

definition attempting :: "round_net \<Rightarrow> globals \<Rightarrow> globals \<times> bool" where
  "attempting e g =
     checkAllNodesInSync (check_net e)
       (sync_all (sync_net e) (sync_dl e) 0 (peerIPs g) (g\<lparr>syncAttempts := syncAttempts g + 1\<rparr>))"

text \<open>
  The globals after \<open>n\<close> such rounds in a row from \<open>g\<close>, whatever the checks return,
  and what the check of round \<open>j + 1\<close> returns. Round number \<open>a\<close> meets the network
  \<open>env a\<close>.
\<close>

fun after_rounds :: "(nat \<Rightarrow> round_net) \<Rightarrow> nat \<Rightarrow> globals \<Rightarrow> globals" where
  "after_rounds env 0 g = g"
| "after_rounds env (Suc n) g =
     after_rounds env n (fst (attempting (env (nat (syncAttempts g + 1))) g))"

definition check_of_round :: "(nat \<Rightarrow> round_net) \<Rightarrow> nat \<Rightarrow> globals \<Rightarrow> bool" where
  "check_of_round env j g =
     snd (attempting (env (nat (syncAttempts (after_rounds env j g) + 1))) (after_rounds env j g))"

text \<open>
  The loop started in \<open>g\<close> stops after \<open>k\<close> rounds with the globals \<open>g'\<close> and the log
  \<open>log\<close>: the check of the last round returned true, or the attempts are used up.
\<close>

definition stops_after ::
  "(nat \<Rightarrow> round_net) \<Rightarrow> globals \<Rightarrow> globals \<Rightarrow> log_line list \<Rightarrow> nat \<Rightarrow> bool" where
  "stops_after env g g' log k =
     (let synced = (0 < k \<and> check_of_round env (k - 1) g) in
      (\<not> synced \<longrightarrow> int k = max 0 (maxAttempts - syncAttempts g))
      \<and> int k \<le> max 0 (maxAttempts - syncAttempts g)
      \<and> g' = after_rounds env k g
      \<and> attempts log = k
      \<and> (\<forall>j. Suc j < k \<longrightarrow> \<not> check_of_round env j g)
      \<and> list_ex is_all_synced log = synced
      \<and> last log = (if synced then Log_exit else Log_max_attempts maxAttempts))"

section \<open>Every operation as a step on the globals\<close>

text \<open>
  The handlers and goroutines run while \<^verbatim>\<open>main\<close> loops. A run of the process is a
  list of events, each a whole call: the increment of line 108, a \<^verbatim>\<open>syncWithPeer\<close>, a
  convergence check, a request to one of the four endpoints, the goroutine that
  \<^verbatim>\<open>/sync\<close> starts. Any order of events is allowed, which covers every order the
  program can produce. Calls that overlap in time meet only in \<^verbatim>\<open>fileList\<close>, where
  every store is \<^verbatim>\<open>fileList[f] = true\<close> under the lock; \<^verbatim>\<open>ignoredNodes\<close> is written by
  the convergence check alone. \<^verbatim>\<open>handleFileList\<close>, \<^verbatim>\<open>handleFileDownload\<close> (which
  reads the disk) and \<^verbatim>\<open>handleCheckSync\<close> write no global.
\<close>

datatype event =
    Main_attempt
  | Go_syncWithPeer files_reply "string \<Rightarrow> bool" string
  | Main_check "nat \<Rightarrow> files_reply"
  | Http_sync request
  | Go_sync_download bool string
  | Http_files
  | Http_file
  | Http_check

fun step :: "globals \<Rightarrow> event \<Rightarrow> globals" where
  "step g Main_attempt = g\<lparr>syncAttempts := syncAttempts g + 1\<rparr>"
| "step g (Go_syncWithPeer reply dl ip) = fst (syncWithPeer reply dl ip g)"
| "step g (Main_check net) = fst (checkAllNodesInSync net g)"
| "step g (Http_sync r) = fst (handleSyncRequest g r)"
| "step g (Go_sync_download ok filename) = sync_goroutine ok filename g"
| "step g Http_files = g"
| "step g Http_file = g"
| "step g Http_check = g"

definition run :: "globals \<Rightarrow> event list \<Rightarrow> globals" where
  "run g evs = foldl step g evs"

section \<open>What the specification calls in sync\<close>

text \<open>
  A reply is found equal to the local inventory when the listing was read to its end
  and its lines are, as a set, the paths of \<^verbatim>\<open>fileList\<close>.
\<close>

definition found_equal :: "files_reply \<Rightarrow> gomap \<Rightarrow> bool" where
  "found_equal reply fl = (case reply of Lines ls \<Rightarrow> set ls = keys_of fl | _ \<Rightarrow> False)"

text \<open>
  The peer at position \<open>k\<close> of \<open>ips\<close> is counted in a pass that starts in \<open>g\<close> when it
  is not quarantined in \<open>g\<close>, no earlier position with the same address failed in
  this pass (the address would be quarantined by then), and its reply is found equal.
\<close>

definition in_sync_at :: "(nat \<Rightarrow> files_reply) \<Rightarrow> string list \<Rightarrow> globals \<Rightarrow> nat \<Rightarrow> bool" where
  "in_sync_at net ips g k =
     (\<not> shouldIgnoreNode g (ips ! k)
      \<and> list_all (\<lambda>j. ips ! j = ips ! k \<longrightarrow> net j \<noteq> GetError) [0..<k]
      \<and> found_equal (net k) (fileList g))"

definition inSync_count :: "(nat \<Rightarrow> files_reply) \<Rightarrow> string list \<Rightarrow> globals \<Rightarrow> nat" where
  "inSync_count net ips g = length (filter (in_sync_at net ips g) [0..<length ips])"

section \<open>Inputs for the examples\<close>

definition example_globals :: globals where
  "example_globals =
     \<lparr>targetDir = ''d'', peerIPs = [''a'', ''b'', ''c''], port = 18283,
      fileList = [(''x'', True), (''y'', True)], syncCompleted = False, syncAttempts = 1,
      ignoredNodes = [(''c'', True)], syncDelay = 10\<rparr>"

definition example_net :: "nat \<Rightarrow> files_reply" where
  "example_net i = (if i = 0 then Lines [''y'', ''x''] else if i = 1 then GetError else Lines [])"

definition example_events :: "event list" where
  "example_events = [Main_attempt, Main_check (\<lambda>i. GetError)]"

definition example_more_events :: "event list" where
  "example_more_events =
     [Main_attempt, Go_syncWithPeer (Lines [''y'']) (\<lambda>file. True) ''a'',
      Main_check (\<lambda>i. Lines [''x'', ''y''])]"

definition example_request :: request where
  "example_request = \<lparr>query = [(''name'', [''x'']), (''file'', ['''', ''y''])],
     RemoteAddr = ''[::1]:40000''\<rparr>"

definition silent_net :: "nat \<Rightarrow> round_net" where
  "silent_net n =
     \<lparr>sync_net = (\<lambda>i. GetError), sync_dl = (\<lambda>i file. False), check_net = (\<lambda>i. Lines [])\<rparr>"

definition converging_net :: "nat \<Rightarrow> round_net" where
  "converging_net n =
     \<lparr>sync_net = (\<lambda>i. Lines [''x'', ''y'']), sync_dl = (\<lambda>i file. n = 2),
      check_net = (\<lambda>i. Lines [''x'', ''y''])\<rparr>"

definition dead_net :: "nat \<Rightarrow> round_net" where
  "dead_net n =
     \<lparr>sync_net = (\<lambda>i. GetError), sync_dl = (\<lambda>i file. False), check_net = (\<lambda>i. GetError)\<rparr>"

definition twice_globals :: globals where
  "twice_globals = run (startup ''d'' ''a,a'' 18283 10 [''x''])
     [Main_attempt, Main_check (\<lambda>i. GetError)]"

section \<open>Facts about maps\<close>

lemma map_index_assign: "map_index (map_assign m k v) k' = (if k' = k then v else map_index m k')"
  by (simp add: map_index_def map_assign_def update_conv')

lemma set_map_range: "set (map_range m) = fst ` set m"
  by (simp add: map_range_def)

lemma set_map_range_assign: "set (map_range (map_assign m k v)) = insert k (set (map_range m))"
  by (simp add: set_map_range map_assign_def dom_update)

lemma map_len_card: "map_len m = card (fst ` set m)"
  by (simp add: map_len_def map_range_def length_remdups_card_conv)

lemma map_index_scan_into:
  "map_index (scan_into m ls) k = (k \<in> set ls \<or> map_index m k)"
  by (induction ls arbitrary: m) (auto simp: map_index_assign)

lemma set_map_range_scan_into:
  "set (map_range (scan_into m ls)) = set ls \<union> set (map_range m)"
  by (induction ls arbitrary: m) (auto simp: set_map_range_assign)

lemma map_index_Nil: "map_index [] k = False"
  by (simp add: map_index_def)

lemma map_range_Nil: "map_range [] = []"
  by (simp add: map_range_def)

lemma map_index_scan_peerFiles: "map_index (scan_peerFiles ls) k = (k \<in> set ls)"
  by (simp add: scan_peerFiles_def map_index_scan_into map_index_Nil)

lemma set_map_range_scan_peerFiles: "set (map_range (scan_peerFiles ls)) = set ls"
  by (simp add: scan_peerFiles_def set_map_range_scan_into map_range_Nil)

lemma all_in_peerFiles_iff:
  "all_in_peerFiles files peerFiles = (\<forall>file \<in> set files. map_index peerFiles file)"
  by (induction files) auto

section \<open>Timeouts\<close>

text \<open>
  C5, as the program has it: the convergence check lists a peer's files with a timeout of
  5 seconds, which is shorter than the 30 seconds of the reconciler's listing call, and
  the file download has the longest timeout, 60 seconds.
\<close>

theorem timeouts_ordered:
  "Timeout checkAllNodesInSync_client = 5 * time_Second
   \<and> Timeout syncWithPeer_client = 30 * time_Second
   \<and> Timeout downloadFile_client = 60 * time_Second
   \<and> Timeout checkAllNodesInSync_client < Timeout syncWithPeer_client
   \<and> Timeout syncWithPeer_client < Timeout downloadFile_client"
  by (simp add: checkAllNodesInSync_client_def syncWithPeer_client_def
      downloadFile_client_def time_Second_def)

text \<open>
  C5 as written says that the check and the reconciler list files with the same timeout;
  the two clients differ.
\<close>

theorem timeouts_check_differs_from_sync:
  "Timeout checkAllNodesInSync_client \<noteq> Timeout syncWithPeer_client"
  by (simp add: checkAllNodesInSync_client_def syncWithPeer_client_def time_Second_def)

section \<open>Facts about the convergence check\<close>

lemma filesMatch_iff:
  "filesMatch (scan_peerFiles ls) fl =
     (card (set ls) = card (keys_of fl) \<and> keys_of fl \<subseteq> set ls)"
  by (auto simp: filesMatch_def map_len_card all_in_peerFiles_iff map_index_scan_peerFiles
      set_map_range keys_of_def
      set_map_range_scan_peerFiles [unfolded set_map_range])

lemma card_subset_eq_iff:
  "finite B \<Longrightarrow> (card B = card A \<and> A \<subseteq> B) = (B = A)"
  by (metis card_subset_eq order_refl)

lemma filesMatch_set_eq: "filesMatch (scan_peerFiles ls) fl = (set ls = keys_of fl)"
  by (simp add: filesMatch_iff card_subset_eq_iff)

lemma check_loop_shift:
  "check_loop net i ips gn = check_loop (\<lambda>k. net (i + k)) 0 ips gn"
proof (induction ips arbitrary: net i gn)
  case Nil
  show ?case by simp
next
  case (Cons ip ips)
  have "check_loop net (Suc i) ips (check_peer (net i) ip gn)
        = check_loop (\<lambda>k. net (Suc i + k)) 0 ips (check_peer (net i) ip gn)"
    by (rule Cons.IH)
  moreover have "check_loop (\<lambda>k. net (i + k)) (Suc 0) ips (check_peer (net i) ip gn)
        = check_loop (\<lambda>k. net (i + (Suc 0 + k))) 0 ips (check_peer (net i) ip gn)"
    by (rule Cons.IH)
  ultimately show ?case by simp
qed

lemma shouldIgnoreNode_ignoreNode:
  "shouldIgnoreNode (ignoreNode g ip) x = (x = ip \<or> shouldIgnoreNode g x)"
  by (simp add: shouldIgnoreNode_def ignoreNode_def map_index_assign)

lemma fileList_ignoreNode: "fileList (ignoreNode g ip) = fileList g"
  by (simp add: ignoreNode_def)

lemma in_sync_at_iff:
  "in_sync_at net ips g k =
     (\<not> shouldIgnoreNode g (ips ! k)
      \<and> (\<forall>j<k. ips ! j = ips ! k \<longrightarrow> net j \<noteq> GetError)
      \<and> found_equal (net k) (fileList g))"
  by (auto simp: in_sync_at_def list_all_iff)

lemma in_sync_at_Suc:
  "in_sync_at net (ip # rest) g (Suc k) =
     in_sync_at (\<lambda>k. net (Suc k)) rest (fst (check_peer (net 0) ip (g, n))) k"
  unfolding in_sync_at_iff All_less_Suc2
  by (cases "net 0")
    (auto simp: check_peer_def shouldIgnoreNode_ignoreNode fileList_ignoreNode)

lemma check_loop_count:
  "check_loop net 0 ips (g, n) = (g', n') \<Longrightarrow>
     n' = n + int (inSync_count net ips g) \<and> fileList g' = fileList g"
proof (induction ips arbitrary: net g n)
  case Nil
  then show ?case by (simp add: inSync_count_def)
next
  case (Cons ip rest)
  obtain g1 n1 where step: "check_peer (net 0) ip (g, n) = (g1, n1)"
    by (cases "check_peer (net 0) ip (g, n)")
  have "check_loop (\<lambda>k. net (Suc k)) 0 rest (g1, n1) = (g', n')"
    using Cons.prems step check_loop_shift [of net "Suc 0" rest "(g1, n1)"] by simp
  from Cons.IH [OF this]
  have IH: "n' = n1 + int (inSync_count (\<lambda>k. net (Suc k)) rest g1)" "fileList g' = fileList g1"
    by simp_all
  have fl: "fileList g1 = fileList g"
    using step by (auto simp: check_peer_def fileList_ignoreNode split: if_splits files_reply.splits)
  have n1: "n1 = n + (if in_sync_at net (ip # rest) g 0 then 1 else 0)"
    using step
    by (auto simp: check_peer_def in_sync_at_iff found_equal_def filesMatch_set_eq
        split: if_splits files_reply.splits)
  have "[0..<length (ip # rest)] = 0 # map Suc [0..<length rest]"
    by (simp add: upt_conv_Cons map_Suc_upt del: upt_Suc)
  then have "inSync_count net (ip # rest) g =
      (if in_sync_at net (ip # rest) g 0 then 1 else 0)
      + length (filter (\<lambda>k. in_sync_at net (ip # rest) g (Suc k)) [0..<length rest])"
    by (simp add: inSync_count_def filter_map comp_def)
  also have "(\<lambda>k. in_sync_at net (ip # rest) g (Suc k))
      = in_sync_at (\<lambda>k. net (Suc k)) rest g1"
    using in_sync_at_Suc [of net ip rest g _ n] step by (simp add: fun_eq_iff)
  finally have "inSync_count net (ip # rest) g =
      (if in_sync_at net (ip # rest) g 0 then 1 else 0)
      + inSync_count (\<lambda>k. net (Suc k)) rest g1"
    by (simp add: inSync_count_def)
  with IH n1 fl show ?case by simp
qed

text \<open>
  C1: a pass of the convergence check returns true exactly when the number of peers
  counted in sync in this pass plus the number of keys of \<^verbatim>\<open>ignoredNodes\<close> after the
  pass is at least the number of configured peers.
\<close>

theorem checkAllNodesInSync_decision:
  "snd (checkAllNodesInSync net g) =
     (inSync_count net (peerIPs g) g + card (keys_of (ignoredNodes (fst (checkAllNodesInSync net g))))
        \<ge> length (peerIPs g))"
proof -
  obtain g' n' where loop: "check_loop net 0 (peerIPs g) (g, 0) = (g', n')"
    by (cases "check_loop net 0 (peerIPs g) (g, 0)")
  from check_loop_count [OF this] have "n' = int (inSync_count net (peerIPs g) g)"
    by simp
  with loop show ?thesis
    by (simp add: checkAllNodesInSync_def map_len_card keys_of_def) linarith
qed

theorem checkAllNodesInSync_decision_witness:
  "snd (checkAllNodesInSync example_net example_globals)
   \<and> inSync_count example_net (peerIPs example_globals) example_globals = 1
   \<and> card (keys_of (ignoredNodes (fst (checkAllNodesInSync example_net example_globals)))) = 2
   \<and> length (peerIPs example_globals) = 3"
proof -
  have count: "inSync_count example_net (peerIPs example_globals) example_globals = 1"
    by code_simp
  have quarantined:
    "card (keys_of (ignoredNodes (fst (checkAllNodesInSync example_net example_globals)))) = 2"
    by code_simp
  have total: "length (peerIPs example_globals) = 3"
    by (simp add: example_globals_def)
  from checkAllNodesInSync_decision [of example_net example_globals] count quarantined total
  show ?thesis by simp
qed

text \<open>
  C2: when the pass reaches a peer that is not quarantined and reads its listing to the
  end, the peer is counted exactly when the listing has as many paths as \<^verbatim>\<open>fileList\<close>
  and every path of \<^verbatim>\<open>fileList\<close> is in the listing; nothing else changes.
\<close>

theorem check_peer_counted_iff:
  "\<not> shouldIgnoreNode g ip \<Longrightarrow>
     check_peer (Lines ls) ip (g, n) =
       (g, if card (set ls) = card (keys_of (fileList g)) \<and> keys_of (fileList g) \<subseteq> set ls
           then n + 1 else n)"
  by (simp add: check_peer_def filesMatch_iff)

theorem check_peer_counted_iff_witness:
  "\<not> shouldIgnoreNode example_globals ''a''
   \<and> check_peer (Lines [''y'', ''x'']) ''a'' (example_globals, 0) = (example_globals, 1)
   \<and> check_peer (Lines [''y'', ''z'']) ''a'' (example_globals, 0) = (example_globals, 0)
   \<and> check_peer (Lines [''y'', ''x'', ''z'']) ''a'' (example_globals, 0) = (example_globals, 0)"
proof -
  have h: "\<not> shouldIgnoreNode example_globals ''a''"
    by (simp add: shouldIgnoreNode_def example_globals_def map_index_def)
  have fl: "keys_of (fileList example_globals) = {''x'', ''y''}"
    by (simp add: example_globals_def keys_of_def)
  show ?thesis
    using h check_peer_counted_iff [OF h, of "[''y'', ''x'']" 0]
      check_peer_counted_iff [OF h, of "[''y'', ''z'']" 0]
      check_peer_counted_iff [OF h, of "[''y'', ''x'', ''z'']" 0]
    by (simp add: fl)
qed

section \<open>Facts about the reconciler\<close>

lemma only_true_iff: "only_true m = (\<forall>e \<in> set m. snd e)"
  by (simp add: only_true_def list_all_iff)

lemma map_index_iff_key:
  "only_true m \<Longrightarrow> map_index m k = (k \<in> keys_of m)"
proof (cases "map_of m k")
  case None
  then show ?thesis
    by (simp add: map_index_def keys_of_def map_of_eq_None_iff [symmetric])
next
  case (Some b)
  assume all: "only_true m"
  from Some have "(k, b) \<in> set m" by (rule map_of_SomeD)
  with all have "snd (k, b)" and "k \<in> keys_of m"
    unfolding only_true_iff keys_of_def by (blast, force)
  with Some show ?thesis by (simp add: map_index_def)
qed

lemma set_map_assign_subset: "set (map_assign m k v) \<subseteq> insert (k, v) (set m)"
  unfolding map_assign_def by (induction m) auto

lemma only_true_assign: "only_true m \<Longrightarrow> only_true (map_assign m k True)"
  using set_map_assign_subset [of m k True] by (auto simp: only_true_iff)

lemma only_true_Nil: "only_true []"
  by (simp add: only_true_def)

lemma scan_into_values: "only_true m \<Longrightarrow> only_true (scan_into m ls)"
  by (induction ls arbitrary: m) (simp_all add: only_true_assign)

lemma keys_of_scan_into: "keys_of (scan_into m ls) = set ls \<union> keys_of m"
  using set_map_range_scan_into [of m ls] by (simp add: set_map_range keys_of_def)

lemma set_filesToPush:
  "set (filesToPush fl (scan_peerFiles ls)) = keys_of fl - set ls"
  by (auto simp: filesToPush_def set_map_range keys_of_def map_index_scan_peerFiles)

lemma set_filesToPull:
  "only_true fl \<Longrightarrow>
     set (filesToPull fl (scan_peerFiles ls)) = set ls - keys_of fl"
  using set_map_range_scan_peerFiles [of ls]
  by (auto simp: filesToPull_def map_index_iff_key)

text \<open>
  C3: for an inventory with the paths \<open>L\<close> (stored one by one, as the program stores
  them) and a listing with the lines \<open>P\<close>, \<^verbatim>\<open>syncWithPeer\<close> does compute its two lists:
  \<^verbatim>\<open>filesToPull\<close> is the set \<open>P - L\<close>, \<^verbatim>\<open>filesToPush\<close> is the set \<open>L - P\<close>, and the
  two have no path in common.
\<close>

theorem syncWithPeer_diff:
  "\<exists>push pull.
     snd (syncWithPeer (Lines P) dl ip (g\<lparr>fileList := scan_into [] L\<rparr>)) = Some (push, pull)
     \<and> set pull = set P - set L \<and> set push = set L - set P \<and> set pull \<inter> set push = {}"
proof -
  define push where "push = filesToPush (scan_into [] L) (scan_peerFiles P)"
  define pull where "pull = filesToPull (scan_into [] L) (scan_peerFiles P)"
  have computed:
    "snd (syncWithPeer (Lines P) dl ip (g\<lparr>fileList := scan_into [] L\<rparr>)) = Some (push, pull)"
    by (simp add: syncWithPeer_def Let_def push_def pull_def)
  have vals: "only_true (scan_into [] L)"
    by (rule scan_into_values) (rule only_true_Nil)
  have "keys_of [] = {}"
    by (simp add: keys_of_def)
  then have keys: "keys_of (scan_into [] L) = set L"
    by (simp add: keys_of_scan_into)
  have "set pull = set P - set L"
    using set_filesToPull [OF vals, of P] by (simp add: pull_def keys)
  moreover have "set push = set L - set P"
    using set_filesToPush [of "scan_into [] L" P] by (simp add: push_def keys)
  ultimately have "set pull = set P - set L \<and> set push = set L - set P
      \<and> set pull \<inter> set push = {}"
    by blast
  with computed show ?thesis by blast
qed

theorem syncWithPeer_diff_witness:
  "snd (syncWithPeer (Lines [''y'', ''z'']) (\<lambda>file. True) ''b''
         (example_globals\<lparr>fileList := scan_into [] [''x'', ''y'']\<rparr>)) = Some ([''x''], [''z''])
   \<and> set [''z''] = set [''y'', ''z''] - set [''x'', ''y'']
   \<and> set [''x''] = set [''x'', ''y''] - set [''y'', ''z'']
   \<and> set [''z''] \<inter> set [''x''] = ({} :: string set)"
proof -
  have run: "snd (syncWithPeer (Lines [''y'', ''z'']) (\<lambda>file. True) ''b''
         (example_globals\<lparr>fileList := scan_into [] [''x'', ''y'']\<rparr>)) = Some ([''x''], [''z''])"
    by code_simp
  from syncWithPeer_diff [where P = "[''y'', ''z'']" and dl = "\<lambda>file. True" and ip = "''b''"
      and g = example_globals and L = "[''x'', ''y'']"]
  obtain push pull where
    "snd (syncWithPeer (Lines [''y'', ''z'']) (\<lambda>file. True) ''b''
         (example_globals\<lparr>fileList := scan_into [] [''x'', ''y'']\<rparr>)) = Some (push, pull)"
    and diff: "set pull = set [''y'', ''z''] - set [''x'', ''y'']"
      "set push = set [''x'', ''y''] - set [''y'', ''z'']" "set pull \<inter> set push = {}"
    by blast
  with run have "push = [''x'']" "pull = [''z'']" by simp_all
  with diff run show ?thesis by simp
qed

section \<open>Facts about runs\<close>

lemma run_Nil: "run g [] = g"
  by (simp add: run_def)

lemma run_Cons: "run g (e # evs) = run (step g e) evs"
  by (simp add: run_def)

lemma run_append: "run g (evs @ evs') = run (run g evs) evs'"
  by (simp add: run_def)

lemma run_snoc: "run g (evs @ [e]) = step (run g evs) e"
  by (simp add: run_def)

lemma fst_handleSyncRequest: "fst (handleSyncRequest g r) = g"
  by (simp add: handleSyncRequest_def Let_def)

lemma step_peerIPs: "peerIPs (step g e) = peerIPs g"
  by (cases e)
    (simp_all add: syncWithPeer_fields checkAllNodesInSync_fields fst_handleSyncRequest
      sync_goroutine_def)

lemma step_syncCompleted: "syncCompleted (step g e) = syncCompleted g"
  by (cases e)
    (simp_all add: syncWithPeer_fields checkAllNodesInSync_fields fst_handleSyncRequest
      sync_goroutine_def)

lemma run_peerIPs: "peerIPs (run g evs) = peerIPs g"
  by (induction evs arbitrary: g) (simp_all add: run_Nil run_Cons step_peerIPs)

lemma run_syncCompleted: "syncCompleted (run g evs) = syncCompleted g"
  by (induction evs arbitrary: g) (simp_all add: run_Nil run_Cons step_syncCompleted)

text \<open>The keys of the quarantine map: what one loop body, the loop and a pass do to them.\<close>

lemma keys_of_assign: "keys_of (map_assign m k v) = insert k (keys_of m)"
  by (simp add: keys_of_def map_assign_def dom_update)

lemma check_peer_keys:
  "keys_of (ignoredNodes (fst (check_peer reply ip (g, n)))) =
     (if \<not> shouldIgnoreNode g ip \<and> reply = GetError
      then insert ip (keys_of (ignoredNodes g)) else keys_of (ignoredNodes g))"
  by (simp add: check_peer_def ignoreNode_def keys_of_assign split: files_reply.split)

lemma check_peer_ignored:
  "shouldIgnoreNode (fst (check_peer reply ip (g, n))) p =
     (shouldIgnoreNode g p \<or> (p = ip \<and> reply = GetError))"
  by (auto simp: check_peer_def shouldIgnoreNode_ignoreNode split: files_reply.split)

lemma check_loop_keys_mono:
  "keys_of (ignoredNodes (fst gn)) \<subseteq> keys_of (ignoredNodes (fst (check_loop net i ips gn)))"
proof (induction ips arbitrary: i gn)
  case Nil
  show ?case by simp
next
  case (Cons ip ips)
  obtain g n where gn: "gn = (g, n)" by (cases gn)
  have "keys_of (ignoredNodes g) \<subseteq> keys_of (ignoredNodes (fst (check_peer (net i) ip (g, n))))"
    by (auto simp: check_peer_keys)
  moreover have "keys_of (ignoredNodes (fst (check_peer (net i) ip (g, n))))
      \<subseteq> keys_of (ignoredNodes (fst (check_loop net (Suc i) ips (check_peer (net i) ip (g, n)))))"
    by (rule Cons.IH)
  ultimately show ?case
    by (auto simp: gn)
qed

lemma check_loop_ignored_mono:
  "shouldIgnoreNode (fst gn) p \<Longrightarrow> shouldIgnoreNode (fst (check_loop net i ips gn)) p"
proof (induction ips arbitrary: i gn)
  case Nil
  then show ?case by simp
next
  case (Cons ip ips)
  obtain g n where gn: "gn = (g, n)" by (cases gn)
  with Cons.prems have "shouldIgnoreNode (fst (check_peer (net i) ip gn)) p"
    by (simp add: check_peer_ignored)
  from Cons.IH [OF this] show ?case by simp
qed

lemma check_loop_new_key:
  "p \<in> keys_of (ignoredNodes (fst (check_loop net i ips (g, n)))) \<Longrightarrow>
   p \<notin> keys_of (ignoredNodes g) \<Longrightarrow>
     \<not> shouldIgnoreNode g p \<and> (\<exists>k < length ips. ips ! k = p \<and> net (i + k) = GetError)"
proof (induction ips arbitrary: i g n)
  case Nil
  then show ?case by simp
next
  case (Cons ip ips)
  obtain g1 n1 where step: "check_peer (net i) ip (g, n) = (g1, n1)"
    by (cases "check_peer (net i) ip (g, n)")
  have keys1: "keys_of (ignoredNodes g1) =
     (if \<not> shouldIgnoreNode g ip \<and> net i = GetError
      then insert ip (keys_of (ignoredNodes g)) else keys_of (ignoredNodes g))"
    using check_peer_keys [of "net i" ip g n] step by simp
  have ign1: "shouldIgnoreNode g1 p = (shouldIgnoreNode g p \<or> (p = ip \<and> net i = GetError))"
    using check_peer_ignored [of "net i" ip g n p] step by simp
  from Cons.prems(1) step
  have final: "p \<in> keys_of (ignoredNodes (fst (check_loop net (Suc i) ips (g1, n1))))"
    by simp
  show ?case
  proof (cases "p \<in> keys_of (ignoredNodes g1)")
    case True
    with keys1 Cons.prems(2) have "\<not> shouldIgnoreNode g ip" "net i = GetError" "p = ip"
      by (auto split: if_splits)
    then show ?thesis by auto
  next
    case False
    from Cons.IH [OF final False]
    obtain k where k: "\<not> shouldIgnoreNode g1 p" "k < length ips" "ips ! k = p"
        "net (Suc i + k) = GetError"
      by blast
    from k(1) ign1 have "\<not> shouldIgnoreNode g p" by simp
    moreover from k have "Suc k < length (ip # ips) \<and> (ip # ips) ! Suc k = p
        \<and> net (i + Suc k) = GetError"
      by simp
    ultimately show ?thesis by blast
  qed
qed

lemma step_keys_mono: "keys_of (ignoredNodes g) \<subseteq> keys_of (ignoredNodes (step g e))"
proof (cases e)
  case (Main_check net)
  then show ?thesis
    using check_loop_keys_mono [of "(g, 0)" net 0 "peerIPs g"]
    by (simp add: fst_checkAllNodesInSync)
qed (simp_all add: syncWithPeer_fields fst_handleSyncRequest sync_goroutine_def)

lemma step_ignored_mono: "shouldIgnoreNode g p \<Longrightarrow> shouldIgnoreNode (step g e) p"
proof (cases e)
  case (Main_check net)
  assume "shouldIgnoreNode g p"
  then show ?thesis
    using check_loop_ignored_mono [of "(g, 0)" p net 0 "peerIPs g"] Main_check
    by (simp add: fst_checkAllNodesInSync)
qed (simp_all add: shouldIgnoreNode_def syncWithPeer_fields fst_handleSyncRequest
    sync_goroutine_def)

lemma run_keys_mono: "keys_of (ignoredNodes g) \<subseteq> keys_of (ignoredNodes (run g evs))"
proof (induction evs arbitrary: g)
  case Nil
  show ?case by (simp add: run_Nil)
next
  case (Cons e evs)
  from step_keys_mono [of g e] Cons.IH [of "step g e"] show ?case
    by (auto simp: run_Cons)
qed

lemma run_ignored_mono: "shouldIgnoreNode g p \<Longrightarrow> shouldIgnoreNode (run g evs) p"
  by (induction evs arbitrary: g) (simp_all add: run_Nil run_Cons step_ignored_mono)

lemma step_new_key:
  "p \<in> keys_of (ignoredNodes (step g e)) \<Longrightarrow> p \<notin> keys_of (ignoredNodes g) \<Longrightarrow>
     \<exists>net k. e = Main_check net \<and> \<not> shouldIgnoreNode g p \<and> k < length (peerIPs g)
       \<and> peerIPs g ! k = p \<and> net k = GetError"
proof (cases e)
  case (Main_check net)
  assume "p \<in> keys_of (ignoredNodes (step g e))" and "p \<notin> keys_of (ignoredNodes g)"
  with Main_check check_loop_new_key [of p net 0 "peerIPs g" g 0] show ?thesis
    by (simp add: fst_checkAllNodesInSync)
qed (simp_all add: syncWithPeer_fields fst_handleSyncRequest sync_goroutine_def
    split: if_splits)

lemma step_keys_configured:
  "keys_of (ignoredNodes g) \<subseteq> set (peerIPs g) \<Longrightarrow>
     keys_of (ignoredNodes (step g e)) \<subseteq> set (peerIPs (step g e))"
proof
  fix p
  assume inv: "keys_of (ignoredNodes g) \<subseteq> set (peerIPs g)"
    and new: "p \<in> keys_of (ignoredNodes (step g e))"
  show "p \<in> set (peerIPs (step g e))"
  proof (cases "p \<in> keys_of (ignoredNodes g)")
    case True
    with inv show ?thesis by (auto simp: step_peerIPs)
  next
    case False
    from step_new_key [OF new False] show ?thesis
      by (auto simp: step_peerIPs)
  qed
qed

lemma run_keys_configured:
  "keys_of (ignoredNodes g) \<subseteq> set (peerIPs g) \<Longrightarrow>
     keys_of (ignoredNodes (run g evs)) \<subseteq> set (peerIPs (run g evs))"
  by (induction evs arbitrary: g) (simp_all add: run_Nil run_Cons step_keys_configured)

lemma startup_keys: "keys_of (ignoredNodes (startup dir peers prt delay walk)) = {}"
  by (simp add: startup_def keys_of_def)

section \<open>The round loop\<close>

lemma attempting_syncAttempts: "syncAttempts (fst (attempting e g)) = syncAttempts g + 1"
  by (simp add: attempting_def checkAllNodesInSync_fields sync_all_fields)

lemma after_rounds_syncAttempts:
  "syncAttempts (after_rounds env k g) = syncAttempts g + int k"
  by (induction k arbitrary: g) (simp_all add: attempting_syncAttempts)

lemma check_of_round_0:
  "check_of_round env 0 g = snd (attempting (env (nat (syncAttempts g + 1))) g)"
  by (simp add: check_of_round_def)

lemma check_of_round_Suc:
  "check_of_round env (Suc j) g =
     check_of_round env j (fst (attempting (env (nat (syncAttempts g + 1))) g))"
  by (simp add: check_of_round_def)

lemma main_loop_unfold:
  "main_loop env g =
     (if syncAttempts g < maxAttempts then
        (let r = attempting (env (nat (syncAttempts g + 1))) g in
         if snd r
         then (fst r, [Log_attempt (syncAttempts g + 1), Log_all_synced (syncDelay (fst r)),
                       Log_exit])
         else (fst (main_loop env (fst r)),
               Log_attempt (syncAttempts g + 1) # Log_retry # snd (main_loop env (fst r))))
      else (g, [Log_max_attempts maxAttempts]))"
  by (subst main_loop.simps) (simp add: attempting_def Let_def)

lemma main_loop_log_nonempty: "snd (main_loop env g) \<noteq> []"
  by (subst main_loop_unfold) (simp add: Let_def)

lemma stops_after_none:
  "\<not> syncAttempts g < maxAttempts \<Longrightarrow>
     stops_after env g g [Log_max_attempts maxAttempts] 0"
  by (simp add: stops_after_def attempts_def)

lemma stops_after_one:
  assumes "syncAttempts g < maxAttempts"
    and "snd (attempting (env (nat (syncAttempts g + 1))) g)"
  shows "stops_after env g (fst (attempting (env (nat (syncAttempts g + 1))) g))
     [Log_attempt n, Log_all_synced d, Log_exit] (Suc 0)"
  using assms by (simp add: stops_after_def attempts_def check_of_round_0)

lemma stops_after_more:
  assumes less: "syncAttempts g < maxAttempts"
    and no: "\<not> snd (attempting (env (nat (syncAttempts g + 1))) g)"
    and rest: "stops_after env (fst (attempting (env (nat (syncAttempts g + 1))) g)) g' log' k"
    and ne: "log' \<noteq> []"
  shows "stops_after env g g' (Log_attempt n # Log_retry # log') (Suc k)"
proof -
  let ?g1 = "fst (attempting (env (nat (syncAttempts g + 1))) g)"
  have att: "syncAttempts ?g1 = syncAttempts g + 1"
    by (rule attempting_syncAttempts)
  have last_round: "(0 < Suc k \<and> check_of_round env (Suc k - 1) g)
      = (0 < k \<and> check_of_round env (k - 1) ?g1)"
  proof (cases k)
    case 0
    with no show ?thesis by (simp add: check_of_round_0)
  next
    case (Suc k')
    then show ?thesis by (simp add: check_of_round_Suc)
  qed
  have earlier: "\<not> check_of_round env j g" if "Suc j < Suc k" for j
  proof (cases j)
    case 0
    with no show ?thesis by (simp add: check_of_round_0)
  next
    case (Suc j')
    with that rest show ?thesis
      by (simp add: stops_after_def Let_def check_of_round_Suc)
  qed
  from rest have parts:
    "\<not> (0 < k \<and> check_of_round env (k - 1) ?g1) \<longrightarrow>
       int k = max 0 (maxAttempts - syncAttempts ?g1)"
    "int k \<le> max 0 (maxAttempts - syncAttempts ?g1)"
    "g' = after_rounds env k ?g1"
    "attempts log' = k"
    "list_ex is_all_synced log' = (0 < k \<and> check_of_round env (k - 1) ?g1)"
    "last log' = (if 0 < k \<and> check_of_round env (k - 1) ?g1 then Log_exit
                  else Log_max_attempts maxAttempts)"
    by (simp_all add: stops_after_def Let_def)
  from parts(1,2) less att
  have "\<not> (0 < k \<and> check_of_round env (k - 1) ?g1) \<longrightarrow>
       int (Suc k) = max 0 (maxAttempts - syncAttempts g)"
    and "int (Suc k) \<le> max 0 (maxAttempts - syncAttempts g)"
    by auto
  moreover from parts(3) have "g' = after_rounds env (Suc k) g"
    by simp
  moreover from parts(4) have "attempts (Log_attempt n # Log_retry # log') = Suc k"
    by (simp add: attempts_def)
  moreover from parts(5)
  have "list_ex is_all_synced (Log_attempt n # Log_retry # log')
      = (0 < k \<and> check_of_round env (k - 1) ?g1)"
    by simp
  moreover from parts(6) ne
  have "last (Log_attempt n # Log_retry # log')
      = (if 0 < k \<and> check_of_round env (k - 1) ?g1 then Log_exit
         else Log_max_attempts maxAttempts)"
    by simp
  ultimately show ?thesis
    unfolding stops_after_def Let_def last_round using earlier by blast
qed

lemma main_loop_rounds: "\<exists>k. stops_after env g (fst (main_loop env g)) (snd (main_loop env g)) k"
proof (induction env g rule: main_loop.induct)
  case (1 env g)
  show ?case
  proof (cases "syncAttempts g < maxAttempts")
    case False
    then have "main_loop env g = (g, [Log_max_attempts maxAttempts])"
      by (subst main_loop_unfold) simp
    with stops_after_none [OF False, of env] show ?thesis
      by auto
  next
    case True
    define g1 where "g1 = g\<lparr>syncAttempts := syncAttempts g + 1\<rparr>"
    define e where "e = env (nat (syncAttempts g1))"
    define g2 where "g2 = sync_all (sync_net e) (sync_dl e) 0 (peerIPs g1) g1"
    define r where "r = checkAllNodesInSync (check_net e) g2"
    have r: "r = attempting (env (nat (syncAttempts g + 1))) g"
      by (simp add: r_def g2_def e_def g1_def attempting_def)
    show ?thesis
    proof (cases "snd r")
      case yes: True
      with True have "main_loop env g = (fst r,
          [Log_attempt (syncAttempts g + 1), Log_all_synced (syncDelay (fst r)), Log_exit])"
        by (subst main_loop_unfold) (simp add: r Let_def)
      moreover from True yes
      have "stops_after env g (fst r)
          [Log_attempt (syncAttempts g + 1), Log_all_synced (syncDelay (fst r)), Log_exit] (Suc 0)"
        unfolding r by (rule stops_after_one)
      ultimately show ?thesis by auto
    next
      case no: False
      have "\<exists>k. stops_after env (fst r) (fst (main_loop env (fst r)))
          (snd (main_loop env (fst r))) k"
        using True no by (intro "1.IH" [OF True g1_def e_def g2_def r_def]) simp_all
      then obtain k where "stops_after env (fst r) (fst (main_loop env (fst r)))
          (snd (main_loop env (fst r))) k" ..
      with True no
      have "stops_after env g (fst (main_loop env (fst r)))
          (Log_attempt (syncAttempts g + 1) # Log_retry # snd (main_loop env (fst r))) (Suc k)"
        unfolding r
        by - (rule stops_after_more, assumption, assumption, assumption,
            rule main_loop_log_nonempty)
      moreover from True no have "main_loop env g = (fst (main_loop env (fst r)),
          Log_attempt (syncAttempts g + 1) # Log_retry # snd (main_loop env (fst r)))"
        by (subst main_loop_unfold) (simp add: r Let_def)
      ultimately show ?thesis by auto
    qed
  qed
qed

lemma main_fatal_exits:
  "main [] peers prt delay mkdir_ok walk listen_ok env = None"
  "main dir peers prt delay False walk listen_ok env = None"
  "main dir peers prt delay mkdir_ok None listen_ok env = None"
  "main dir peers prt delay mkdir_ok walk False env = None"
  by (simp_all add: main_def Let_def split: option.split)

text \<open>
  C9: when \<^verbatim>\<open>main\<close> reaches the round loop (a directory is given, \<^verbatim>\<open>MkdirAll\<close>, \<^verbatim>\<open>Walk\<close>
  and the listener succeed) with a peer list that is not empty, it returns after some
  number \<open>k\<close> of rounds with \<open>1 \<le> k \<le> maxAttempts\<close>: its globals are those that \<open>k\<close>
  reconcile-and-check rounds in a row leave, \<^verbatim>\<open>syncAttempts\<close> is \<open>k\<close>, it has logged \<open>k\<close>
  attempts, and the check of every round before the last returned false. Either the
  check of round \<open>k\<close> returned true and \<^verbatim>\<open>main\<close> exits as synced, or \<open>k\<close> is
  \<^verbatim>\<open>maxAttempts\<close>, no check returned true, and the last line reports that the maximum is
  reached. So when no round's check returns true, exactly \<^verbatim>\<open>maxAttempts\<close> rounds are
  entered.
\<close>

theorem main_rounds_bounded:
  "dir \<noteq> [] \<Longrightarrow> mkdir_ok \<Longrightarrow> listen_ok \<Longrightarrow>
   peerIPs (startup dir peers prt delay paths) \<noteq> [] \<Longrightarrow>
     \<exists>g log k. main dir peers prt delay mkdir_ok (Some paths) listen_ok env = Some (g, log)
       \<and> 0 < k \<and> int k \<le> maxAttempts
       \<and> g = after_rounds env k (startup dir peers prt delay paths)
       \<and> syncAttempts g = int k
       \<and> attempts log = k
       \<and> (\<forall>j. Suc j < k \<longrightarrow> \<not> check_of_round env j (startup dir peers prt delay paths))
       \<and> (check_of_round env (k - 1) (startup dir peers prt delay paths)
              \<and> list_ex is_all_synced log \<and> last log = Log_exit
           \<or> int k = maxAttempts
              \<and> (\<forall>j<k. \<not> check_of_round env j (startup dir peers prt delay paths))
              \<and> \<not> list_ex is_all_synced log \<and> last log = Log_max_attempts maxAttempts)
       \<and> ((\<forall>j. int j < maxAttempts \<longrightarrow> \<not> check_of_round env j (startup dir peers prt delay paths))
            \<longrightarrow> int k = maxAttempts \<and> last log = Log_max_attempts maxAttempts)"
proof -
  let ?g0 = "startup dir peers prt delay paths"
  assume dir: "dir \<noteq> []" and ok: "mkdir_ok" "listen_ok" and peers: "peerIPs ?g0 \<noteq> []"
  obtain g log where loop: "main_loop env ?g0 = (g, log)"
    by (cases "main_loop env ?g0")
  have zero: "syncAttempts ?g0 = 0"
    by (simp add: startup_def)
  from dir ok peers loop
  have main: "main dir peers prt delay mkdir_ok (Some paths) listen_ok env = Some (g, log)"
    by (simp add: main_def Let_def)
  from main_loop_rounds [of env ?g0] loop
  obtain k where "stops_after env ?g0 g log k"
    by auto
  with zero have k:
    "\<not> (0 < k \<and> check_of_round env (k - 1) ?g0) \<longrightarrow> int k = maxAttempts"
    "int k \<le> maxAttempts"
    "g = after_rounds env k ?g0"
    "attempts log = k"
    "\<forall>j. Suc j < k \<longrightarrow> \<not> check_of_round env j ?g0"
    "last log = (if 0 < k \<and> check_of_round env (k - 1) ?g0 then Log_exit
                 else Log_max_attempts maxAttempts)"
    "list_ex is_all_synced log = (0 < k \<and> check_of_round env (k - 1) ?g0)"
    by (simp_all add: stops_after_def Let_def maxAttempts_def)
  from k(1) have pos: "0 < k"
    by (auto simp: maxAttempts_def)
  from k(3) zero have att: "syncAttempts g = int k"
    by (simp add: after_rounds_syncAttempts)
  have outcome: "check_of_round env (k - 1) ?g0
              \<and> list_ex is_all_synced log \<and> last log = Log_exit
           \<or> int k = maxAttempts
              \<and> (\<forall>j<k. \<not> check_of_round env j ?g0)
              \<and> \<not> list_ex is_all_synced log \<and> last log = Log_max_attempts maxAttempts"
  proof (cases "check_of_round env (k - 1) ?g0")
    case True
    with k(6,7) pos show ?thesis by simp
  next
    case False
    with k(1) have full: "int k = maxAttempts" by simp
    note last_failed = False
    from False k(6) have last: "last log = Log_max_attempts maxAttempts" by simp
    have none: "\<not> check_of_round env j ?g0" if "j < k" for j
    proof (cases "Suc j < k")
      case True
      with k(5) show ?thesis by simp
    next
      case False
      with that have "j = k - 1" by simp
      with last_failed show ?thesis by simp
    qed
    from False k(7) have "\<not> list_ex is_all_synced log" by simp
    with full last none show ?thesis by simp
  qed
  have never: "int k = maxAttempts \<and> last log = Log_max_attempts maxAttempts"
    if "\<forall>j. int j < maxAttempts \<longrightarrow> \<not> check_of_round env j ?g0"
  proof -
    from pos k(2) have "int (k - 1) < maxAttempts" by simp
    with that have "\<not> check_of_round env (k - 1) ?g0" by blast
    with outcome show ?thesis by blast
  qed
  from main pos k(2,3,4,5) att outcome never show ?thesis
    by blast
qed

theorem main_rounds_bounded_witness:
  "''d'' \<noteq> [] \<and> peerIPs (startup ''d'' ''a,b'' 18283 10 [''x'']) = [''a'', ''b'']
   \<and> (\<exists>g log k. main ''d'' ''a,b'' 18283 10 True (Some [''x'']) True silent_net = Some (g, log)
         \<and> log = [Log_attempt 1, Log_retry, Log_attempt 2, Log_retry, Log_attempt 3, Log_retry,
                  Log_attempt 4, Log_retry, Log_attempt 5, Log_retry, Log_max_attempts 5]
         \<and> k = 5 \<and> int k = maxAttempts
         \<and> g = after_rounds silent_net k (startup ''d'' ''a,b'' 18283 10 [''x''])
         \<and> syncAttempts g = 5)"
proof -
  have dir: "''d'' \<noteq> []" by simp
  have peers: "peerIPs (startup ''d'' ''a,b'' 18283 10 [''x'']) = [''a'', ''b'']"
    by code_simp
  then have ne: "peerIPs (startup ''d'' ''a,b'' 18283 10 [''x'']) \<noteq> []" by simp
  have log: "map_option snd (main ''d'' ''a,b'' 18283 10 True (Some [''x'']) True silent_net) =
      Some [Log_attempt 1, Log_retry, Log_attempt 2, Log_retry, Log_attempt 3, Log_retry,
            Log_attempt 4, Log_retry, Log_attempt 5, Log_retry, Log_max_attempts 5]"
    by code_simp
  from main_rounds_bounded [OF dir TrueI TrueI ne, of silent_net]
  obtain g log k
    where m: "main ''d'' ''a,b'' 18283 10 True (Some [''x'']) True silent_net = Some (g, log)"
    and g: "g = after_rounds silent_net k (startup ''d'' ''a,b'' 18283 10 [''x''])"
    and att: "syncAttempts g = int k" and k: "attempts log = k"
    by blast
  from m log have l: "log = [Log_attempt 1, Log_retry, Log_attempt 2, Log_retry, Log_attempt 3,
      Log_retry, Log_attempt 4, Log_retry, Log_attempt 5, Log_retry, Log_max_attempts 5]"
    by simp
  with k have k5: "k = 5" by (simp add: attempts_def)
  with att have "syncAttempts g = 5" "int k = maxAttempts" by (simp_all add: maxAttempts_def)
  with dir peers m l k5 g show ?thesis by blast
qed

text \<open>A run that converges in its second round, when the downloads succeed.\<close>

lemma main_converging_example:
  "map_option snd (main ''d'' ''a'' 18283 10 True (Some [''x'']) True converging_net) =
     Some [Log_attempt 1, Log_retry, Log_attempt 2, Log_all_synced 10, Log_exit]"
  "check_of_round converging_net 0 (startup ''d'' ''a'' 18283 10 [''x'']) = False"
  "check_of_round converging_net 1 (startup ''d'' ''a'' 18283 10 [''x'']) = True"
  by code_simp+

section \<open>The quarantine set over a run\<close>

lemma pull_files_values: "only_true fl \<Longrightarrow> only_true (pull_files dl files fl)"
  by (induction files arbitrary: fl) (simp_all add: only_true_assign)

lemma check_loop_values:
  "only_true (ignoredNodes (fst gn)) \<Longrightarrow>
     only_true (ignoredNodes (fst (check_loop net i ips gn)))"
proof (induction ips arbitrary: i gn)
  case Nil
  then show ?case by simp
next
  case (Cons ip ips)
  from Cons.prems have "only_true (ignoredNodes (fst (check_peer (net i) ip gn)))"
    by (cases gn) (auto simp: check_peer_def ignoreNode_def only_true_assign
        split: files_reply.split)
  from Cons.IH [OF this] show ?case by simp
qed

lemma step_ignoredNodes_values:
  "only_true (ignoredNodes g) \<Longrightarrow> only_true (ignoredNodes (step g e))"
  using check_loop_values [of "(g, 0)"]
  by (cases e)
    (simp_all add: syncWithPeer_fields fst_checkAllNodesInSync fst_handleSyncRequest
      sync_goroutine_def)

lemma step_fileList_values:
  "only_true (fileList g) \<Longrightarrow> only_true (fileList (step g e))"
  by (cases e)
    (simp_all add: syncWithPeer_def Let_def pull_files_values checkAllNodesInSync_fields
      fst_handleSyncRequest sync_goroutine_def only_true_assign
      split: files_reply.split)

lemma run_ignoredNodes_values:
  "only_true (ignoredNodes g) \<Longrightarrow> only_true (ignoredNodes (run g evs))"
  by (induction evs arbitrary: g) (simp_all add: run_Nil run_Cons step_ignoredNodes_values)

lemma run_fileList_values:
  "only_true (fileList g) \<Longrightarrow> only_true (fileList (run g evs))"
  by (induction evs arbitrary: g) (simp_all add: run_Nil run_Cons step_fileList_values)

lemma startup_values:
  "only_true (ignoredNodes (startup dir peers prt delay walk))"
  "only_true (fileList (startup dir peers prt delay walk))"
  by (simp_all add: startup_def scan_into_values only_true_Nil)

text \<open>
  C6: a peer that is in the quarantine set at some point of a run of the process is one
  of the configured peers, and it is in the quarantine set (and \<^verbatim>\<open>shouldIgnoreNode\<close>
  holds for it) after every continuation of the run.
\<close>

theorem quarantine_permanent_and_configured:
  "p \<in> keys_of (ignoredNodes (run (startup dir peers prt delay walk) evs)) \<Longrightarrow>
     p \<in> set (peerIPs (startup dir peers prt delay walk))
     \<and> peerIPs (run (startup dir peers prt delay walk) (evs @ evs'))
         = peerIPs (startup dir peers prt delay walk)
     \<and> p \<in> keys_of (ignoredNodes (run (startup dir peers prt delay walk) (evs @ evs')))
     \<and> shouldIgnoreNode (run (startup dir peers prt delay walk) (evs @ evs')) p"
proof -
  let ?g0 = "startup dir peers prt delay walk"
  assume p: "p \<in> keys_of (ignoredNodes (run ?g0 evs))"
  have "keys_of (ignoredNodes (run ?g0 evs)) \<subseteq> set (peerIPs (run ?g0 evs))"
    by (rule run_keys_configured) (simp add: startup_keys)
  with p have configured: "p \<in> set (peerIPs ?g0)"
    by (auto simp: run_peerIPs)
  from p run_keys_mono [of "run ?g0 evs" evs']
  have later: "p \<in> keys_of (ignoredNodes (run ?g0 (evs @ evs')))"
    by (auto simp: run_append)
  have "only_true (ignoredNodes (run ?g0 (evs @ evs')))"
    by (rule run_ignoredNodes_values) (rule startup_values)
  from map_index_iff_key [OF this] later
  have "shouldIgnoreNode (run ?g0 (evs @ evs')) p"
    by (simp add: shouldIgnoreNode_def)
  with configured later show ?thesis
    by (simp add: run_peerIPs)
qed

theorem quarantine_permanent_and_configured_witness:
  "''a'' \<in> keys_of (ignoredNodes (run (startup ''d'' ''a,b'' 18283 10 [''x'']) example_events))
   \<and> ''a'' \<in> set (peerIPs (startup ''d'' ''a,b'' 18283 10 [''x'']))
   \<and> ''a'' \<in> keys_of (ignoredNodes
        (run (startup ''d'' ''a,b'' 18283 10 [''x'']) (example_events @ example_more_events)))
   \<and> shouldIgnoreNode
        (run (startup ''d'' ''a,b'' 18283 10 [''x'']) (example_events @ example_more_events)) ''a''"
proof -
  have h: "''a'' \<in> keys_of (ignoredNodes (run (startup ''d'' ''a,b'' 18283 10 [''x'']) example_events))"
    by code_simp
  from quarantine_permanent_and_configured [OF h, of example_more_events] h show ?thesis
    by (elim conjE) (intro conjI; assumption)
qed

text \<open>
  C4: a step of the process puts a new peer into the quarantine set only when the step
  is a convergence check, the peer was not quarantined before, and the listing call to
  the first position of that peer in \<^verbatim>\<open>peerIPs\<close> failed. A \<^verbatim>\<open>syncWithPeer\<close> whose
  listing call fails, or whose listing cannot be read, returns with all globals as they
  were, and no \<^verbatim>\<open>syncWithPeer\<close> touches \<^verbatim>\<open>ignoredNodes\<close>.
\<close>

theorem quarantine_only_by_failed_check:
  "(p \<in> keys_of (ignoredNodes (step g e)) \<and> p \<notin> keys_of (ignoredNodes g) \<longrightarrow>
      (\<exists>net k. e = Main_check net \<and> \<not> shouldIgnoreNode g p \<and> k < length (peerIPs g)
         \<and> peerIPs g ! k = p \<and> net k = GetError
         \<and> (\<forall>j<k. peerIPs g ! j = p \<longrightarrow> net j \<noteq> GetError)))
   \<and> syncWithPeer GetError dl ip g = (g, None)
   \<and> syncWithPeer (ScanError ls) dl ip g = (g, None)
   \<and> ignoredNodes (fst (syncWithPeer reply dl ip g)) = ignoredNodes g"
proof -
  have "\<exists>net k. e = Main_check net \<and> \<not> shouldIgnoreNode g p \<and> k < length (peerIPs g)
         \<and> peerIPs g ! k = p \<and> net k = GetError
         \<and> (\<forall>j<k. peerIPs g ! j = p \<longrightarrow> net j \<noteq> GetError)"
    if new: "p \<in> keys_of (ignoredNodes (step g e))" "p \<notin> keys_of (ignoredNodes g)"
  proof -
    from step_new_key [OF new]
    obtain net where e: "e = Main_check net" and live: "\<not> shouldIgnoreNode g p"
      and ex: "\<exists>k. k < length (peerIPs g) \<and> peerIPs g ! k = p \<and> net k = GetError"
      by blast
    define k where "k = (LEAST k. k < length (peerIPs g) \<and> peerIPs g ! k = p \<and> net k = GetError)"
    from ex have k: "k < length (peerIPs g) \<and> peerIPs g ! k = p \<and> net k = GetError"
      unfolding k_def by (rule LeastI_ex)
    have "\<not> (j < length (peerIPs g) \<and> peerIPs g ! j = p \<and> net j = GetError)" if "j < k" for j
      using that not_less_Least unfolding k_def by blast
    with k have "\<forall>j<k. peerIPs g ! j = p \<longrightarrow> net j \<noteq> GetError"
      by auto
    with e live k show ?thesis by blast
  qed
  then show ?thesis
    by (simp add: syncWithPeer_fields) (simp add: syncWithPeer_def)
qed

theorem quarantine_only_by_failed_check_witness:
  "''b'' \<in> keys_of (ignoredNodes (step example_globals (Main_check example_net)))
   \<and> ''b'' \<notin> keys_of (ignoredNodes example_globals)
   \<and> (\<exists>net k. Main_check example_net = Main_check net \<and> \<not> shouldIgnoreNode example_globals ''b''
         \<and> k < length (peerIPs example_globals) \<and> peerIPs example_globals ! k = ''b''
         \<and> net k = GetError)
   \<and> syncWithPeer GetError (\<lambda>file. True) ''b'' example_globals = (example_globals, None)"
proof -
  have new: "''b'' \<in> keys_of (ignoredNodes (step example_globals (Main_check example_net)))"
    by code_simp
  have old: "''b'' \<notin> keys_of (ignoredNodes example_globals)"
    by code_simp
  note inst = quarantine_only_by_failed_check
    [of "''b''" example_globals "Main_check example_net" "\<lambda>file. True" "''b''" "[]" GetError]
  from inst new old
  have "\<exists>net k. Main_check example_net = Main_check net \<and> \<not> shouldIgnoreNode example_globals ''b''
         \<and> k < length (peerIPs example_globals) \<and> peerIPs example_globals ! k = ''b''
         \<and> net k = GetError"
    by blast
  moreover from inst
  have "syncWithPeer GetError (\<lambda>file. True) ''b'' example_globals = (example_globals, None)"
    by (elim conjE)
  ultimately show ?thesis using new old by - (intro conjI; assumption)
qed

section \<open>The sync-completed flag\<close>

lemma sync_all_run: "\<exists>evs. sync_all net dl i ips g = run g evs"
proof (induction ips arbitrary: i g)
  case Nil
  have "sync_all net dl i [] g = run g []" by (simp add: run_Nil)
  then show ?case ..
next
  case (Cons ip ips)
  obtain evs where "sync_all net dl (Suc i) ips (step g (Go_syncWithPeer (net i) (dl i) ip))
      = run (step g (Go_syncWithPeer (net i) (dl i) ip)) evs"
    using Cons.IH by blast
  then have "sync_all net dl i (ip # ips) g = run g (Go_syncWithPeer (net i) (dl i) ip # evs)"
    by (simp add: run_Cons)
  then show ?case ..
qed

lemma main_loop_run: "\<exists>evs. fst (main_loop env g) = run g evs"
proof (induction env g rule: main_loop.induct)
  case (1 env g)
  show ?case
  proof (cases "syncAttempts g < maxAttempts")
    case False
    then have "fst (main_loop env g) = run g []"
      by (subst main_loop.simps) (simp add: run_Nil)
    then show ?thesis ..
  next
    case True
    define g1 where "g1 = g\<lparr>syncAttempts := syncAttempts g + 1\<rparr>"
    define e where "e = env (nat (syncAttempts g1))"
    define g2 where "g2 = sync_all (sync_net e) (sync_dl e) 0 (peerIPs g1) g1"
    define r where "r = checkAllNodesInSync (check_net e) g2"
    obtain evs where "g2 = run g1 evs"
      unfolding g2_def using sync_all_run by blast
    then have r: "fst r = run g (Main_attempt # evs @ [Main_check (check_net e)])"
      by (simp add: r_def g1_def run_Cons run_snoc)
    show ?thesis
    proof (cases "snd r")
      case yes: True
      with True have "fst (main_loop env g) = fst r"
        by (subst main_loop.simps) (simp add: Let_def g1_def e_def g2_def r_def)
      with r show ?thesis by metis
    next
      case no: False
      have "\<exists>evs'. fst (main_loop env (fst r)) = run (fst r) evs'"
        using True no by (intro "1.IH" [OF True g1_def e_def g2_def r_def]) simp_all
      then obtain evs' where "fst (main_loop env (fst r)) = run (fst r) evs'" ..
      moreover from True no have "fst (main_loop env g) = fst (main_loop env (fst r))"
        by (subst main_loop.simps) (simp add: Let_def g1_def e_def g2_def r_def)
      ultimately have "fst (main_loop env g)
          = run g ((Main_attempt # evs @ [Main_check (check_net e)]) @ evs')"
        by (simp only: r run_append)
      then show ?thesis ..
    qed
  qed
qed

text \<open>
  C8: no operation of the process writes \<^verbatim>\<open>syncCompleted\<close>. After every list of events
  from the startup state the flag is false and \<^verbatim>\<open>/check\<close> answers \<open>PENDING\<close>; the round
  loop, from any globals, ends with the flag as it found it, and the globals it ends with
  are those of a list of events.
\<close>

theorem check_endpoint_always_pending:
  "syncCompleted (run (startup dir peers prt delay walk) evs) = False
   \<and> handleCheckSync (run (startup dir peers prt delay walk) evs)
       = \<lparr>status = 200, body = ''PENDING''\<rparr>
   \<and> syncCompleted (fst (main_loop env g)) = syncCompleted g
   \<and> (\<exists>evs'. fst (main_loop env (startup dir peers prt delay walk))
         = run (startup dir peers prt delay walk) evs')"
proof -
  have "syncCompleted (run (startup dir peers prt delay walk) evs) = False"
    by (simp add: run_syncCompleted startup_def)
  moreover from this
  have "handleCheckSync (run (startup dir peers prt delay walk) evs)
       = \<lparr>status = 200, body = ''PENDING''\<rparr>"
    by (simp add: handleCheckSync_def w_Write_def)
  moreover obtain evs' where "fst (main_loop env g) = run g evs'"
    using main_loop_run by blast
  then have "syncCompleted (fst (main_loop env g)) = syncCompleted g"
    by (simp add: run_syncCompleted)
  ultimately show ?thesis
    using main_loop_run by blast
qed

section \<open>Requests to \<^verbatim>\<open>/sync\<close>\<close>

text \<open>
  C10: a request to \<^verbatim>\<open>/sync\<close> whose query has no \<^verbatim>\<open>file\<close> parameter, or whose first
  \<^verbatim>\<open>file\<close> value is empty, is answered with status 400; no goroutine is started and no
  global changes.
\<close>

theorem handleSyncRequest_without_file:
  "map_of (query r) ''file'' = None \<or> map_of (query r) ''file'' = Some []
     \<or> (\<exists>vs. map_of (query r) ''file'' = Some ([] # vs)) \<Longrightarrow>
   handleSyncRequest g r = (g, \<lparr>status = 400, body = msg_name_empty @ [CHR 0x0A]\<rparr>, None)
   \<and> step g (Http_sync r) = g"
  by (auto simp: handleSyncRequest_def Query_Get_def http_Error_def)

theorem handleSyncRequest_without_file_witness:
  "(\<exists>vs. map_of (query example_request) ''file'' = Some ([] # vs))
   \<and> handleSyncRequest example_globals example_request
       = (example_globals, \<lparr>status = 400, body = msg_name_empty @ [CHR 0x0A]\<rparr>, None)
   \<and> fileList (step example_globals (Http_sync example_request)) = fileList example_globals"
proof -
  have h: "\<exists>vs. map_of (query example_request) ''file'' = Some ([] # vs)"
    by (simp add: example_request_def)
  then have "map_of (query example_request) ''file'' = None
     \<or> map_of (query example_request) ''file'' = Some []
     \<or> (\<exists>vs. map_of (query example_request) ''file'' = Some ([] # vs))"
    by simp
  from handleSyncRequest_without_file [OF this, of example_globals] h show ?thesis
    by simp
qed

text \<open>The other two answers of the handler, on the same globals.\<close>

lemma handleSyncRequest_examples:
  "handleSyncRequest example_globals (example_request\<lparr>query := [(''file'', [''x''])]\<rparr>)
     = (example_globals, \<lparr>status = 200, body = msg_file_exists\<rparr>, None)"
  "handleSyncRequest example_globals (example_request\<lparr>query := [(''file'', [''z''])]\<rparr>)
     = (example_globals, \<lparr>status = 200, body = msg_download_started\<rparr>, Some (''::1'', ''z''))"
  by (simp_all add: handleSyncRequest_def Query_Get_def w_Write_def example_request_def
      example_globals_def map_exists_def cut_port_def strings_Trim_def)

section \<open>A peer listed twice\<close>

lemma check_loop_all_ignored:
  "\<forall>p \<in> set ips. shouldIgnoreNode g p \<Longrightarrow> check_loop net i ips (g, n) = (g, n)"
  by (induction ips arbitrary: i) (simp_all add: check_peer_def)

lemma ignored_is_key: "shouldIgnoreNode g p \<Longrightarrow> p \<in> keys_of (ignoredNodes g)"
  by (auto simp: shouldIgnoreNode_def map_index_def keys_of_def
      split: option.splits dest: map_of_SomeD intro: rev_image_eqI)

text \<open>
  When no address is listed twice, a check that finds every configured peer in the
  quarantine set returns true, whatever \<^verbatim>\<open>fileList\<close> holds.
\<close>

lemma all_quarantined_distinct:
  assumes "distinct (peerIPs g)" and "\<forall>p \<in> set (peerIPs g). shouldIgnoreNode g p"
  shows "checkAllNodesInSync net g = (g, True)"
proof -
  have "set (peerIPs g) \<subseteq> keys_of (ignoredNodes g)"
    using assms(2) by (auto intro: ignored_is_key)
  then have "card (set (peerIPs g)) \<le> card (keys_of (ignoredNodes g))"
    by (intro card_mono) (simp_all add: keys_of_def)
  with assms(1) have "length (peerIPs g) \<le> map_len (ignoredNodes g)"
    by (simp add: distinct_card map_len_card keys_of_def)
  with check_loop_all_ignored [OF assms(2)] show ?thesis
    by (simp add: checkAllNodesInSync_def)
qed

text \<open>
  C7 on the program: started with \<^verbatim>\<open>-peers a,a\<close> and \<open>a\<close> unreachable, the first check
  quarantines \<open>a\<close>. From then on every configured peer is in the quarantine set, and
  the check still returns false: one key in \<^verbatim>\<open>ignoredNodes\<close>, two entries in
  \<^verbatim>\<open>peerIPs\<close>. The round loop uses up all its attempts.
\<close>

theorem all_quarantined_twice_listed_still_false:
  "peerIPs twice_globals = [''a'', ''a'']
   \<and> list_all (shouldIgnoreNode twice_globals) (peerIPs twice_globals)
   \<and> snd (checkAllNodesInSync (\<lambda>i. GetError) twice_globals) = False
   \<and> snd (checkAllNodesInSync (\<lambda>i. Lines [''x'']) twice_globals) = False
   \<and> map_option snd (main ''d'' ''a,a'' 18283 10 True (Some [''x'']) True dead_net) =
       Some [Log_attempt 1, Log_retry, Log_attempt 2, Log_retry, Log_attempt 3, Log_retry,
             Log_attempt 4, Log_retry, Log_attempt 5, Log_retry, Log_max_attempts 5]"
proof -
  have "peerIPs twice_globals = [''a'', ''a'']"
    by code_simp
  moreover have "list_all (shouldIgnoreNode twice_globals) (peerIPs twice_globals)"
    by code_simp
  moreover have "snd (checkAllNodesInSync (\<lambda>i. GetError) twice_globals) = False"
    by code_simp
  moreover have "snd (checkAllNodesInSync (\<lambda>i. Lines [''x'']) twice_globals) = False"
    by code_simp
  moreover have "map_option snd (main ''d'' ''a,a'' 18283 10 True (Some [''x'']) True dead_net) =
       Some [Log_attempt 1, Log_retry, Log_attempt 2, Log_retry, Log_attempt 3, Log_retry,
             Log_attempt 4, Log_retry, Log_attempt 5, Log_retry, Log_max_attempts 5]"
    by code_simp
  ultimately show ?thesis by (intro conjI)
qed

end
